theory Spec2Isabelle
  imports Complex_Main
begin

section \<open>Grover circuit construction: the data model\<close>

text \<open>
  The errors the two source files can raise: the explicit \<open>ValueError\<close> of the
  constructor (and of \<open>math.sqrt\<close>, \<open>math.asin\<close> outside their domain), the
  \<open>ZeroDivisionError\<close> of a division and the \<open>OverflowError\<close> of a conversion or
  division whose result is too large for a float.
\<close>

datatype pyerr = ValueError | ZeroDivisionError | OverflowError

text \<open>
  What a circuit holds. The builder calls \<open>qc.x\<close>, \<open>qc.h\<close>, \<open>qc.mcx\<close>,
  \<open>qc.measure\<close> and \<open>qc.append\<close> each add one entry per line they are broadcast over;
  the entries are recorded with the operands the source passes. Whether the circuit library
  accepts a call is decided outside the two source files and is not part of this model.
\<close>

datatype operation =
    XGate int
  | HGate int
  | MCXGate "int list" int
  | Measure int int
  | Append instruction "int list"
and instruction =
    Instruction (inst_name: string) (inst_qubits: int) (inst_definition: "operation list")

record circuit =
  qc_qubits :: int
  qc_clbits :: int
  data :: "operation list"

record grover =
  self_n :: int
  self_target :: string

subsection \<open>The circuit builder interface used by the source\<close>

definition py_range :: "int \<Rightarrow> int list" where
  "py_range k = [0..k - 1]"

definition QuantumCircuit :: "int \<Rightarrow> int \<Rightarrow> circuit" where
  "QuantumCircuit q c = \<lparr>qc_qubits = q, qc_clbits = c, data = []\<rparr>"

definition qc_x :: "int \<Rightarrow> circuit \<Rightarrow> circuit" where
  "qc_x i qc = qc\<lparr>data := data qc @ [XGate i]\<rparr>"

definition qc_h :: "int \<Rightarrow> circuit \<Rightarrow> circuit" where
  "qc_h i qc = qc\<lparr>data := data qc @ [HGate i]\<rparr>"

definition qc_mcx :: "int list \<Rightarrow> int \<Rightarrow> circuit \<Rightarrow> circuit" where
  "qc_mcx cs t qc = qc\<lparr>data := data qc @ [MCXGate cs t]\<rparr>"

definition qc_append :: "instruction \<Rightarrow> int list \<Rightarrow> circuit \<Rightarrow> circuit" where
  "qc_append g qs qc = qc\<lparr>data := data qc @ [Append g qs]\<rparr>"

text \<open>A gate called on a range of lines is broadcast: one entry per line, in order.\<close>

definition qc_x_all :: "int list \<Rightarrow> circuit \<Rightarrow> circuit" where
  "qc_x_all qs qc = fold qc_x qs qc"

definition qc_h_all :: "int list \<Rightarrow> circuit \<Rightarrow> circuit" where
  "qc_h_all qs qc = fold qc_h qs qc"

definition qc_measure :: "int list \<Rightarrow> int list \<Rightarrow> circuit \<Rightarrow> circuit" where
  "qc_measure qs cs qc =
     fold (\<lambda>(q, c) qc. qc\<lparr>data := data qc @ [Measure q c]\<rparr>) (zip qs cs) qc"

text \<open>
  \<open>to_instruction\<close> followed by the assignment of \<open>name\<close>. The name the library
  generates for the circuit is overwritten by that assignment and is not recorded.
\<close>

definition to_instruction :: "circuit \<Rightarrow> string \<Rightarrow> instruction" where
  "to_instruction qc nm = Instruction nm (qc_qubits qc) (data qc)"

subsection \<open>\<open>GroverAlgorithm\<close> (src/logic.py)\<close>

definition GroverAlgorithm :: "int \<Rightarrow> string \<Rightarrow> pyerr + grover" where
  "GroverAlgorithm n_qubits target_state =
     (if int (length target_state) \<noteq> n_qubits then Inl ValueError
      else Inr \<lparr>self_n = n_qubits, self_target = target_state\<rparr>)"

text \<open>The loop \<open>for i, bit in enumerate(reversed(self.target)): if bit == '0': qc.x(i)\<close>.\<close>

definition flip_zeros :: "string \<Rightarrow> circuit \<Rightarrow> circuit" where
  "flip_zeros tgt qc =
     fold (\<lambda>(i, bit) qc. if bit = CHR ''0'' then qc_x (int i) qc else qc)
       (enumerate 0 (rev tgt)) qc"

definition create_oracle :: "grover \<Rightarrow> instruction" where
  "create_oracle self =
     (let qc = QuantumCircuit (self_n self) 0;
          qc = flip_zeros (self_target self) qc;
          qc = qc_h (self_n self - 1) qc;
          qc = qc_mcx (py_range (self_n self - 1)) (self_n self - 1) qc;
          qc = qc_h (self_n self - 1) qc;
          qc = flip_zeros (self_target self) qc
      in to_instruction qc ''Oracle (Z_f)'')"

definition create_diffuser :: "grover \<Rightarrow> instruction" where
  "create_diffuser self =
     (let qc = QuantumCircuit (self_n self) 0;
          qc = qc_h_all (py_range (self_n self)) qc;
          qc = qc_x_all (py_range (self_n self)) qc;
          qc = qc_h (self_n self - 1) qc;
          qc = qc_mcx (py_range (self_n self - 1)) (self_n self - 1) qc;
          qc = qc_h (self_n self - 1) qc;
          qc = qc_x_all (py_range (self_n self)) qc;
          qc = qc_h_all (py_range (self_n self)) qc
      in to_instruction qc ''Diffuser (D)'')"

definition build_circuit :: "grover \<Rightarrow> int \<Rightarrow> circuit" where
  "build_circuit self iterations =
     (let qc = QuantumCircuit (self_n self) (self_n self);
          qc = qc_h_all (py_range (self_n self)) qc;
          oracle = create_oracle self;
          diffuser = create_diffuser self;
          qc = fold (\<lambda>_ qc. qc_append diffuser (py_range (self_n self))
                               (qc_append oracle (py_range (self_n self)) qc))
                 (py_range iterations) qc;
          qc = qc_measure (py_range (self_n self)) (py_range (self_n self)) qc
      in qc)"


section \<open>What the gates do\<close>

text \<open>
  The action of the three primitive gates on a state, in exact arithmetic. A basis state
  gives every line its bit; a state gives every basis state its amplitude. The value of
  the state after a gate at basis state \<open>b\<close> is written in terms of the state before it:
  \<^item> X on line \<open>i\<close> exchanges the amplitudes of \<open>b\<close> and of \<open>b\<close> with bit \<open>i\<close> flipped;
  \<^item> Hadamard on line \<open>i\<close> sends \<open>|0>\<close> to \<open>(|0> + |1>) / sqrt 2\<close> and \<open>|1>\<close> to
    \<open>(|0> - |1>) / sqrt 2\<close>;
  \<^item> the multi-controlled X flips the target line on the basis states whose control
    lines are all 1 (all of them when there is no control line).
  Measurements and placed composite operators are not gates of this kind and have no
  action here.
\<close>

type_synonym basis = "int \<Rightarrow> bool"

type_synonym qstate = "basis \<Rightarrow> complex"

definition flip_line :: "int \<Rightarrow> basis \<Rightarrow> basis" where
  "flip_line i b = b(i := \<not> b i)"

definition pauli_x :: "int \<Rightarrow> qstate \<Rightarrow> qstate" where
  "pauli_x i \<psi> = (\<lambda>b. \<psi> (flip_line i b))"

definition hadamard :: "int \<Rightarrow> qstate \<Rightarrow> qstate" where
  "hadamard i \<psi> =
     (\<lambda>b. (\<psi> (b(i := False)) + (if b i then - \<psi> (b(i := True)) else \<psi> (b(i := True))))
           / complex_of_real (sqrt 2))"

definition mcx :: "int list \<Rightarrow> int \<Rightarrow> qstate \<Rightarrow> qstate" where
  "mcx cs t \<psi> = (\<lambda>b. if list_all b cs then \<psi> (flip_line t b) else \<psi> b)"

definition apply_gate :: "operation \<Rightarrow> qstate \<Rightarrow> qstate option" where
  "apply_gate g \<psi> =
     (case g of
        XGate i \<Rightarrow> Some (pauli_x i \<psi>)
      | HGate i \<Rightarrow> Some (hadamard i \<psi>)
      | MCXGate cs t \<Rightarrow> Some (mcx cs t \<psi>)
      | Measure q c \<Rightarrow> None
      | Append g qs \<Rightarrow> None)"

primrec apply_gates :: "operation list \<Rightarrow> qstate \<Rightarrow> qstate option" where
  "apply_gates [] \<psi> = Some \<psi>"
| "apply_gates (g # gs) \<psi> =
     (case apply_gate g \<psi> of None \<Rightarrow> None | Some \<psi>' \<Rightarrow> apply_gates gs \<psi>')"

section \<open>The iteration count (main.py)\<close>

subsection \<open>Python floats\<close>

text \<open>
  \<open>calculate_optimal_iterations\<close> computes in Python floats, which are IEEE 754 binary64
  numbers. A finite float is modelled by the real number it denotes; \<open>+0.0\<close> and \<open>-0.0\<close>
  are both 0, since the function never looks at the sign of a zero (a division by either
  raises, and \<open>sqrt\<close>, \<open>asin\<close> and \<open>round\<close> of either give a zero). The two infinities are
  kept; no operation of the function produces a NaN, the \<open>math\<close> functions raise instead.

  \<open>rnd64\<close> rounds a real to the nearest binary64 value, a tie to the even significand:
  a value in the binade \<open>2^e \<le> |x| < 2^(e + 1)\<close> is a multiple of \<open>2^(e - 52)\<close>, and below
  \<open>2^(- 1022)\<close> (the subnormal range) of \<open>2^(- 1074)\<close>. The exponent is not bounded
  above here; a rounded result of magnitude \<open>2^1024\<close> or more is an overflow, which
  \<open>to_float\<close> turns into an infinity as the float operations do, and which the integer
  conversions and the integer division report as \<open>OverflowError\<close>.
\<close>

definition round_even :: "real \<Rightarrow> int" where
  "round_even x =
     (let f = \<lfloor>x\<rfloor>; d = x - of_int f
      in if d < 1 / 2 then f
         else if 1 / 2 < d then f + 1
         else if even f then f else f + 1)"

definition ulp_exp :: "real \<Rightarrow> int" where
  "ulp_exp x = max \<lfloor>log 2 \<bar>x\<bar>\<rfloor> (- 1022) - 52"

definition rnd64 :: "real \<Rightarrow> real" where
  "rnd64 x = of_int (round_even (x / 2 powr of_int (ulp_exp x))) * 2 powr of_int (ulp_exp x)"

datatype pyfloat = Finite real | PosInf | NegInf

text \<open>What \<open>2 ** n\<close> evaluates to: an integer for \<open>n \<ge> 0\<close>, a float otherwise.\<close>

datatype pynum = PyInt int | PyFloat pyfloat

definition to_float :: "real \<Rightarrow> pyfloat" where
  "to_float x =
     (let r = rnd64 x
      in if 2 ^ 1024 \<le> r then PosInf else if r \<le> - (2 ^ 1024) then NegInf else Finite r)"

text \<open>The conversion of an integer operand to a float.\<close>

definition float_of_int :: "int \<Rightarrow> pyerr + real" where
  "float_of_int k =
     (case to_float (of_int k) of
        Finite r \<Rightarrow> Inr r
      | PosInf \<Rightarrow> Inl OverflowError
      | NegInf \<Rightarrow> Inl OverflowError)"

text \<open>\<open>2.0 ** y\<close> for a finite float \<open>y\<close>: an underflow gives 0.0, an overflow raises.\<close>

definition float_pow2 :: "real \<Rightarrow> pyerr + pyfloat" where
  "float_pow2 y =
     (case to_float (2 powr y) of
        Finite r \<Rightarrow> Inr (Finite r)
      | PosInf \<Rightarrow> Inl OverflowError
      | NegInf \<Rightarrow> Inl OverflowError)"

text \<open>
  \<open>2 ** e\<close> on integers: exact for \<open>e \<ge> 0\<close>; for a negative exponent Python converts
  both operands to floats and computes the float power.
\<close>

definition py_pow2 :: "int \<Rightarrow> pyerr + pynum" where
  "py_pow2 e =
     (if 0 \<le> e then Inr (PyInt (2 ^ nat e))
      else case float_of_int e of
             Inl err \<Rightarrow> Inl err
           | Inr y \<Rightarrow> (case float_pow2 y of Inl err \<Rightarrow> Inl err | Inr r \<Rightarrow> Inr (PyFloat r)))"

text \<open>A finite float divided by a float: a zero divisor raises, an overflow gives an infinity.\<close>

definition float_div :: "real \<Rightarrow> pyfloat \<Rightarrow> pyerr + pyfloat" where
  "float_div a b =
     (case b of
        Finite y \<Rightarrow> if y = 0 then Inl ZeroDivisionError else Inr (to_float (a / y))
      | PosInf \<Rightarrow> Inr (Finite 0)
      | NegInf \<Rightarrow> Inr (Finite 0))"

text \<open>
  \<open>a / b\<close> for an integer \<open>a\<close>. By an integer, the quotient is rounded once and an
  overflow raises; by a float, \<open>a\<close> is converted first (which may raise) and the floats
  are divided.
\<close>

definition py_truediv :: "int \<Rightarrow> pynum \<Rightarrow> pyerr + pyfloat" where
  "py_truediv a b =
     (case b of
        PyInt d \<Rightarrow>
          if d = 0 then Inl ZeroDivisionError
          else (case to_float (of_int a / of_int d) of
                  Finite r \<Rightarrow> Inr (Finite r)
                | PosInf \<Rightarrow> Inl OverflowError
                | NegInf \<Rightarrow> Inl OverflowError)
      | PyFloat y \<Rightarrow>
          (case float_of_int a of Inl err \<Rightarrow> Inl err | Inr x \<Rightarrow> float_div x y))"

text \<open>
  \<open>math.sqrt\<close> and \<open>math.asin\<close> raise \<open>ValueError\<close> outside their domain. The square
  root is correctly rounded, as IEEE 754 requires. The arc sine comes from the C library,
  which does not promise the last bit; it is taken here to return the float nearest to
  the exact value. \<open>math.pi\<close> is the float nearest to \<open>pi\<close>.
\<close>

definition math_sqrt :: "pyfloat \<Rightarrow> pyerr + pyfloat" where
  "math_sqrt x =
     (case x of
        Finite y \<Rightarrow> if y < 0 then Inl ValueError else Inr (Finite (rnd64 (sqrt y)))
      | PosInf \<Rightarrow> Inr PosInf
      | NegInf \<Rightarrow> Inl ValueError)"

definition math_asin :: "pyfloat \<Rightarrow> pyerr + real" where
  "math_asin x =
     (case x of
        Finite y \<Rightarrow> if y < - 1 \<or> 1 < y then Inl ValueError else Inr (rnd64 (arcsin y))
      | PosInf \<Rightarrow> Inl ValueError
      | NegInf \<Rightarrow> Inl ValueError)"

definition math_pi :: real where
  "math_pi = rnd64 pi"

definition float_mul :: "real \<Rightarrow> real \<Rightarrow> pyfloat" where
  "float_mul a b = to_float (a * b)"

definition float_sub :: "pyfloat \<Rightarrow> real \<Rightarrow> pyfloat" where
  "float_sub a b =
     (case a of Finite x \<Rightarrow> to_float (x - b) | PosInf \<Rightarrow> PosInf | NegInf \<Rightarrow> NegInf)"

text \<open>\<open>round\<close> of a float: the nearest integer, a tie to the even one.\<close>

definition py_round :: "pyfloat \<Rightarrow> pyerr + int" where
  "py_round x =
     (case x of
        Finite y \<Rightarrow> Inr (round_even y)
      | PosInf \<Rightarrow> Inl OverflowError
      | NegInf \<Rightarrow> Inl OverflowError)"

subsection \<open>\<open>calculate_optimal_iterations\<close>\<close>

definition calculate_optimal_iterations :: "int \<Rightarrow> int \<Rightarrow> pyerr + int" where
  "calculate_optimal_iterations n_qubits n_solutions =
     (case py_pow2 n_qubits of Inl e \<Rightarrow> Inl e | Inr N \<Rightarrow>
      case py_truediv n_solutions N of Inl e \<Rightarrow> Inl e | Inr ratio \<Rightarrow>
      case math_sqrt ratio of Inl e \<Rightarrow> Inl e | Inr rt \<Rightarrow>
      case math_asin rt of Inl e \<Rightarrow> Inl e | Inr theta \<Rightarrow>
      case float_div math_pi (float_mul 4 theta) of Inl e \<Rightarrow> Inl e | Inr q \<Rightarrow>
      py_round (float_sub q (1 / 2)))"


section \<open>The builder loops in closed form\<close>

lemma fold_qc_x: "fold qc_x qs qc = qc\<lparr>data := data qc @ map XGate qs\<rparr>"
  by (induction qs arbitrary: qc) (simp_all add: qc_x_def)

lemma fold_qc_h: "fold qc_h qs qc = qc\<lparr>data := data qc @ map HGate qs\<rparr>"
  by (induction qs arbitrary: qc) (simp_all add: qc_h_def)

lemma fold_measure:
  "fold (\<lambda>(q, c) qc. qc\<lparr>data := data qc @ [Measure q c]\<rparr>) ps qc
     = qc\<lparr>data := data qc @ map (\<lambda>(q, c). Measure q c) ps\<rparr>"
  by (induction ps arbitrary: qc) (simp_all add: case_prod_beta)

lemma fold_flip:
  "fold (\<lambda>(i, bit) qc. if bit = c then qc_x (int i) qc else qc) ps qc
     = qc\<lparr>data := data qc @ map (\<lambda>p. XGate (int (fst p))) (filter (\<lambda>p. snd p = c) ps)\<rparr>"
  by (induction ps arbitrary: qc) (simp_all add: case_prod_beta qc_x_def)

lemma fold_rounds:
  "fold (\<lambda>_ qc. qc_append d r (qc_append g r qc)) xs qc
     = qc\<lparr>data := data qc @ concat (replicate (length xs) [Append g r, Append d r])\<rparr>"
proof (induction xs arbitrary: qc)
  case Nil
  then show ?case by simp
next
  case (Cons x xs)
  show ?case
    by (simp add: Cons.IH) (simp add: qc_append_def)
qed

lemma upto_as_upt: "[0..int m - 1] = map int [0..<m]"
proof (induction m)
  case 0
  then show ?case by simp
next
  case (Suc m)
  have "[0..int (Suc m) - 1] = [0..int m - 1] @ [int m]"
    using upto_rec2 [of 0 "int m"] by simp
  with Suc show ?case by simp
qed

lemma length_py_range: "length (py_range k) = nat k"
  by (simp add: py_range_def)

lemma zip_same: "zip xs xs = map (\<lambda>x. (x, x)) xs"
  by (induction xs) simp_all

text \<open>
  Position \<open>i\<close> of the reversed target is position \<open>length - 1 - i\<close> of the target:
  the lines that get an X are those whose character, counted from the right, is \<open>0\<close>.
\<close>

lemma zero_lines:
  "map (\<lambda>p. XGate (int (fst p))) (filter (\<lambda>p. snd p = c) (enumerate 0 (rev t)))
     = map XGate (filter (\<lambda>i. t ! nat (int (length t) - 1 - i) = c) [0..int (length t) - 1])"
proof -
  have e: "enumerate 0 (rev t) = map (\<lambda>i. (i, rev t ! i)) [0..<length t]"
    by (rule nth_equalityI) (simp_all add: nth_enumerate_eq)
  have "filter (\<lambda>i. rev t ! i = c) [0..<length t]
          = filter (\<lambda>i. t ! nat (int (length t) - 1 - int i) = c) [0..<length t]"
  proof (rule filter_cong [OF refl])
    fix i assume "i \<in> set [0..<length t]"
    then have i: "i < length t" by simp
    then have "nat (int (length t) - 1 - int i) = length t - Suc i" by simp
    with i show "(rev t ! i = c) = (t ! nat (int (length t) - 1 - int i) = c)"
      by (simp add: rev_nth)
  qed
  then show ?thesis
    by (simp add: e upto_as_upt filter_map comp_def)
qed

lemma flip_zeros_eq:
  "flip_zeros t qc = qc\<lparr>data := data qc @
      map XGate (filter (\<lambda>i. t ! nat (int (length t) - 1 - i) = CHR ''0'') [0..int (length t) - 1])\<rparr>"
  unfolding flip_zeros_def fold_flip zero_lines ..

lemma constructed:
  "GroverAlgorithm n t = Inr self \<Longrightarrow> self_n self = n \<and> self_target self = t \<and> int (length t) = n"
  by (auto simp: GroverAlgorithm_def split: if_splits)

lemma upto_small: "[0..(2::int)] = [0, 1, 2]" "[0..(1::int)] = [0, 1]" "[0..(0::int)] = [0]"
  by (simp_all add: upto.simps)

lemma build_circuit_data:
  "build_circuit self k =
     \<lparr>qc_qubits = self_n self, qc_clbits = self_n self,
      data = map HGate [0..self_n self - 1]
        @ concat (replicate (nat k)
            [Append (create_oracle self) [0..self_n self - 1],
             Append (create_diffuser self) [0..self_n self - 1]])
        @ map (\<lambda>i. Measure i i) [0..self_n self - 1]\<rparr>"
  by (simp add: build_circuit_def qc_h_all_def fold_qc_h fold_rounds length_py_range
      qc_measure_def fold_measure zip_same QuantumCircuit_def comp_def)
    (simp add: py_range_def)

section \<open>The oracle\<close>

text \<open>
  C2. For every \<open>n \<ge> 1\<close> and every target of length \<open>n\<close>, the operator that
  \<open>create_oracle\<close> returns is the composite named "Oracle (Z_f)" on \<open>n\<close> lines whose
  gates are, in this order: an X on every line \<open>i\<close> (ascending) whose target character,
  read from the right (character \<open>n - 1 - i\<close> of the string), is \<open>0\<close>; a Hadamard on
  line \<open>n - 1\<close>; a multi-controlled X with controls \<open>0 .. n - 2\<close> and target \<open>n - 1\<close>;
  a Hadamard on line \<open>n - 1\<close>; and the same X gates again.
\<close>

theorem create_oracle_gates:
  assumes "GroverAlgorithm n t = Inr self" and "1 \<le> n"
  shows "create_oracle self =
           Instruction ''Oracle (Z_f)'' n
             (map XGate (filter (\<lambda>i. t ! nat (n - 1 - i) = CHR ''0'') [0..n - 1])
              @ [HGate (n - 1), MCXGate [0..n - 2] (n - 1), HGate (n - 1)]
              @ map XGate (filter (\<lambda>i. t ! nat (n - 1 - i) = CHR ''0'') [0..n - 1]))"
proof -
  from assms(1) have s: "self_n self = n" "self_target self = t" "int (length t) = n"
    using constructed by blast+
  show ?thesis
    by (simp add: create_oracle_def s flip_zeros_eq QuantumCircuit_def qc_h_def qc_mcx_def
        to_instruction_def py_range_def)
qed

theorem create_oracle_gates_witness:
  "GroverAlgorithm 3 ''011'' = Inr \<lparr>self_n = 3, self_target = ''011''\<rparr> \<and> (1::int) \<le> 3
   \<and> create_oracle \<lparr>self_n = 3, self_target = ''011''\<rparr> =
       Instruction ''Oracle (Z_f)'' 3
         [XGate 2, HGate 2, MCXGate [0, 1] 2, HGate 2, XGate 2]"
proof -
  have c: "GroverAlgorithm 3 ''011'' = Inr \<lparr>self_n = 3, self_target = ''011''\<rparr>"
    by (simp add: GroverAlgorithm_def)
  show ?thesis
    using create_oracle_gates [OF c] by (simp add: c upto_small)
qed

section \<open>The diffuser\<close>

text \<open>
  C3. For every \<open>n \<ge> 1\<close>, the operator that \<open>create_diffuser\<close> returns is the composite
  named "Diffuser (D)" on \<open>n\<close> lines whose gates are, in this order: a Hadamard on every
  line, an X on every line, a Hadamard on line \<open>n - 1\<close>, a multi-controlled X with
  controls \<open>0 .. n - 2\<close> and target \<open>n - 1\<close>, a Hadamard on line \<open>n - 1\<close>, an X on every
  line, a Hadamard on every line.
\<close>

theorem create_diffuser_gates:
  assumes "GroverAlgorithm n t = Inr self" and "1 \<le> n"
  shows "create_diffuser self =
           Instruction ''Diffuser (D)'' n
             (map HGate [0..n - 1] @ map XGate [0..n - 1]
              @ [HGate (n - 1), MCXGate [0..n - 2] (n - 1), HGate (n - 1)]
              @ map XGate [0..n - 1] @ map HGate [0..n - 1])"
proof -
  from assms(1) have s: "self_n self = n"
    using constructed by blast
  show ?thesis
    by (simp add: create_diffuser_def s qc_h_all_def qc_x_all_def fold_qc_h fold_qc_x
        QuantumCircuit_def qc_h_def qc_mcx_def to_instruction_def py_range_def)
qed

theorem create_diffuser_gates_witness:
  "GroverAlgorithm 2 ''10'' = Inr \<lparr>self_n = 2, self_target = ''10''\<rparr> \<and> (1::int) \<le> 2
   \<and> create_diffuser \<lparr>self_n = 2, self_target = ''10''\<rparr> =
       Instruction ''Diffuser (D)'' 2
         [HGate 0, HGate 1, XGate 0, XGate 1, HGate 1, MCXGate [0] 1, HGate 1,
          XGate 0, XGate 1, HGate 0, HGate 1]"
proof -
  have c: "GroverAlgorithm 2 ''10'' = Inr \<lparr>self_n = 2, self_target = ''10''\<rparr>"
    by (simp add: GroverAlgorithm_def)
  show ?thesis
    using create_diffuser_gates [OF c] by (simp add: c upto_small)
qed

section \<open>The assembled circuit\<close>

text \<open>
  C4. For every \<open>n \<ge> 1\<close>, every target of length \<open>n\<close> and every \<open>k \<ge> 0\<close>,
  \<open>build_circuit k\<close> returns a circuit on \<open>n\<close> quantum and \<open>n\<close> classical lines that
  holds exactly: a Hadamard on every quantum line; then \<open>k\<close> times the oracle placed on
  lines \<open>0 .. n - 1\<close> followed by the diffuser placed on lines \<open>0 .. n - 1\<close>; then a
  measurement of every quantum line \<open>i\<close> into classical line \<open>i\<close>. With \<open>k = 0\<close> it holds
  the Hadamards and the measurements only.
\<close>

theorem build_circuit_structure:
  assumes "GroverAlgorithm n t = Inr self" and "1 \<le> n" and "0 \<le> k"
  shows "build_circuit self k =
           \<lparr>qc_qubits = n, qc_clbits = n,
            data = map HGate [0..n - 1]
              @ concat (replicate (nat k)
                  [Append (create_oracle self) [0..n - 1], Append (create_diffuser self) [0..n - 1]])
              @ map (\<lambda>i. Measure i i) [0..n - 1]\<rparr>
         \<and> build_circuit self 0 =
           \<lparr>qc_qubits = n, qc_clbits = n,
            data = map HGate [0..n - 1] @ map (\<lambda>i. Measure i i) [0..n - 1]\<rparr>"
proof -
  from assms(1) have s: "self_n self = n"
    using constructed by blast
  show ?thesis
    by (simp add: build_circuit_data s)
qed

theorem build_circuit_structure_witness:
  "GroverAlgorithm 2 ''10'' = Inr \<lparr>self_n = 2, self_target = ''10''\<rparr>
   \<and> (1::int) \<le> 2 \<and> (0::int) \<le> 2
   \<and> data (build_circuit \<lparr>self_n = 2, self_target = ''10''\<rparr> 2) =
       [HGate 0, HGate 1,
        Append (create_oracle \<lparr>self_n = 2, self_target = ''10''\<rparr>) [0, 1],
        Append (create_diffuser \<lparr>self_n = 2, self_target = ''10''\<rparr>) [0, 1],
        Append (create_oracle \<lparr>self_n = 2, self_target = ''10''\<rparr>) [0, 1],
        Append (create_diffuser \<lparr>self_n = 2, self_target = ''10''\<rparr>) [0, 1],
        Measure 0 0, Measure 1 1]
   \<and> data (build_circuit \<lparr>self_n = 2, self_target = ''10''\<rparr> 0) =
       [HGate 0, HGate 1, Measure 0 0, Measure 1 1]"
proof -
  have c: "GroverAlgorithm 2 ''10'' = Inr \<lparr>self_n = 2, self_target = ''10''\<rparr>"
    by (simp add: GroverAlgorithm_def)
  have r: "replicate 2 x = [x, x]" for x :: "operation list"
    by (simp add: numeral_2_eq_2)
  have "build_circuit \<lparr>self_n = 2, self_target = ''10''\<rparr> 2 =
          \<lparr>qc_qubits = 2, qc_clbits = 2,
           data = map HGate [0..2 - 1]
             @ concat (replicate (nat 2)
                 [Append (create_oracle \<lparr>self_n = 2, self_target = ''10''\<rparr>) [0..2 - 1],
                  Append (create_diffuser \<lparr>self_n = 2, self_target = ''10''\<rparr>) [0..2 - 1]])
             @ map (\<lambda>i. Measure i i) [0..2 - 1]\<rparr>"
    and "build_circuit \<lparr>self_n = 2, self_target = ''10''\<rparr> 0 =
          \<lparr>qc_qubits = 2, qc_clbits = 2,
           data = map HGate [0..2 - 1] @ map (\<lambda>i. Measure i i) [0..2 - 1]\<rparr>"
    using build_circuit_structure [OF c, of 2] by simp_all
  then show ?thesis
    by (simp add: c upto_small r)
qed

text \<open>
  C10. For every \<open>n \<ge> 1\<close>, every target of length \<open>n\<close> and every \<open>k < 0\<close>,
  \<open>build_circuit k\<close> returns what \<open>build_circuit 0\<close> returns: \<open>range\<close> of a negative
  number is empty, so the circuit holds the Hadamards and the measurements and no oracle or
  diffuser.
\<close>

theorem build_circuit_negative:
  assumes "GroverAlgorithm n t = Inr self" and "1 \<le> n" and "k < 0"
  shows "build_circuit self k = build_circuit self 0
         \<and> data (build_circuit self k) = map HGate [0..n - 1] @ map (\<lambda>i. Measure i i) [0..n - 1]"
proof -
  from assms(1) have s: "self_n self = n"
    using constructed by blast
  from assms(3) have "nat k = 0" by simp
  then show ?thesis
    by (simp add: build_circuit_data s)
qed

theorem build_circuit_negative_witness:
  "GroverAlgorithm 2 ''10'' = Inr \<lparr>self_n = 2, self_target = ''10''\<rparr>
   \<and> (1::int) \<le> 2 \<and> (- 3::int) < 0
   \<and> build_circuit \<lparr>self_n = 2, self_target = ''10''\<rparr> (- 3)
       = build_circuit \<lparr>self_n = 2, self_target = ''10''\<rparr> 0
   \<and> data (build_circuit \<lparr>self_n = 2, self_target = ''10''\<rparr> (- 3)) =
       [HGate 0, HGate 1, Measure 0 0, Measure 1 1]"
proof -
  have c: "GroverAlgorithm 2 ''10'' = Inr \<lparr>self_n = 2, self_target = ''10''\<rparr>"
    by (simp add: GroverAlgorithm_def)
  have h1: "(1::int) \<le> 2" and h3: "(- 3::int) < 0"
    by simp_all
  have a: "build_circuit \<lparr>self_n = 2, self_target = ''10''\<rparr> (- 3)
          = build_circuit \<lparr>self_n = 2, self_target = ''10''\<rparr> 0"
    and b: "data (build_circuit \<lparr>self_n = 2, self_target = ''10''\<rparr> (- 3))
          = map HGate [0..2 - 1] @ map (\<lambda>i. Measure i i) [0..2 - 1]"
    using build_circuit_negative [OF c h1 h3] by (rule conjunct1, rule conjunct2)
  have b': "data (build_circuit \<lparr>self_n = 2, self_target = ''10''\<rparr> (- 3))
          = [HGate 0, HGate 1, Measure 0 0, Measure 1 1]"
    unfolding b by (simp add: upto_small)
  show ?thesis
    by (rule conjI [OF c conjI [OF _ conjI [OF _ conjI [OF a b']]]]) simp_all
qed

section \<open>Validation in the constructor\<close>

text \<open>
  C6, as the code has it. The constructor raises \<open>ValueError\<close> exactly when the length of
  the target differs from the register size; no object exists then, so no circuit can be
  built. It does not look at the characters: every string of length \<open>n\<close> is accepted.
\<close>

theorem constructor_checks_length_only:
  "(int (length t) \<noteq> n \<longrightarrow> GroverAlgorithm n t = Inl ValueError)
   \<and> (int (length t) = n \<longrightarrow> GroverAlgorithm n t = Inr \<lparr>self_n = n, self_target = t\<rparr>)"
  by (simp add: GroverAlgorithm_def)

theorem constructor_checks_length_only_witness:
  "GroverAlgorithm 3 ''10'' = Inl ValueError
   \<and> GroverAlgorithm 2 ''10'' = Inr \<lparr>self_n = 2, self_target = ''10''\<rparr>"
  using constructor_checks_length_only [of "''10''" 3]
    constructor_checks_length_only [of "''10''" 2]
  by simp

text \<open>
  C6 as stated fails: a target of the right length with a character outside \<open>0\<close>, \<open>1\<close>
  is accepted.
\<close>

theorem constructor_accepts_non_binary:
  "GroverAlgorithm 2 ''1a'' = Inr \<lparr>self_n = 2, self_target = ''1a''\<rparr>"
  by (simp add: GroverAlgorithm_def)

section \<open>The operators as transformations of the state\<close>

lemma apply_gates_append:
  "apply_gates (xs @ ys) \<psi> =
     (case apply_gates xs \<psi> of None \<Rightarrow> None | Some \<psi>' \<Rightarrow> apply_gates ys \<psi>')"
  by (induction xs arbitrary: \<psi>) (simp_all split: option.split)

lemma apply_x_gates: "apply_gates (map XGate qs) \<psi> = Some (fold pauli_x qs \<psi>)"
  by (induction qs arbitrary: \<psi>) (simp_all add: apply_gate_def)

lemma apply_h_gates: "apply_gates (map HGate qs) \<psi> = Some (fold hadamard qs \<psi>)"
  by (induction qs arbitrary: \<psi>) (simp_all add: apply_gate_def)

lemma apply_sandwich:
  "apply_gates [HGate t, MCXGate cs t, HGate t] \<psi> = Some (hadamard t (mcx cs t (hadamard t \<psi>)))"
  by (simp add: apply_gate_def)

lemma flip_line_twice: "flip_line i (flip_line i b) = b"
  by (rule ext) (simp add: flip_line_def)

lemma flip_line_commute: "flip_line i (flip_line j b) = flip_line j (flip_line i b)"
  by (rule ext) (simp add: flip_line_def)

lemma pauli_x_twice: "pauli_x i (pauli_x i \<psi>) = \<psi>"
  by (rule ext) (simp add: pauli_x_def flip_line_twice)

lemma pauli_x_commute: "pauli_x i (pauli_x j \<psi>) = pauli_x j (pauli_x i \<psi>)"
  by (rule ext) (simp add: pauli_x_def flip_line_commute)

lemma sqrt2_mult: "complex_of_real (sqrt 2) * complex_of_real (sqrt 2) = 2"
  by (simp flip: of_real_mult)

lemma hadamard_algebra:
  fixes A B :: complex
  shows "((A + B) / complex_of_real (sqrt 2) - (A - B) / complex_of_real (sqrt 2))
           / complex_of_real (sqrt 2) = B"
    and "((A + B) / complex_of_real (sqrt 2) + (A - B) / complex_of_real (sqrt 2))
           / complex_of_real (sqrt 2) = A"
proof -
  have "((A + B) / complex_of_real (sqrt 2) - (A - B) / complex_of_real (sqrt 2))
          / complex_of_real (sqrt 2) = (2 * B) / (complex_of_real (sqrt 2) * complex_of_real (sqrt 2))"
    by (simp flip: diff_divide_distrib)
  then show "((A + B) / complex_of_real (sqrt 2) - (A - B) / complex_of_real (sqrt 2))
           / complex_of_real (sqrt 2) = B"
    by (simp only: sqrt2_mult) simp
  have "((A + B) / complex_of_real (sqrt 2) + (A - B) / complex_of_real (sqrt 2))
          / complex_of_real (sqrt 2) = (2 * A) / (complex_of_real (sqrt 2) * complex_of_real (sqrt 2))"
    by (simp flip: add_divide_distrib)
  then show "((A + B) / complex_of_real (sqrt 2) + (A - B) / complex_of_real (sqrt 2))
           / complex_of_real (sqrt 2) = A"
    by (simp only: sqrt2_mult) simp
qed

lemma hadamard_twice: "hadamard i (hadamard i \<psi>) = \<psi>"
proof (rule ext)
  fix b :: basis
  show "hadamard i (hadamard i \<psi>) b = \<psi> b"
  proof (cases "b i")
    case True
    then have "b(i := True) = b" by (simp add: fun_upd_idem)
    then show ?thesis using True
      by (simp add: hadamard_def hadamard_algebra)
  next
    case False
    then have "b(i := False) = b" by (simp add: fun_upd_idem)
    then show ?thesis using False
      by (simp add: hadamard_def hadamard_algebra)
  qed
qed

lemma hadamard_commute: "hadamard i (hadamard j \<psi>) = hadamard j (hadamard i \<psi>)"
proof (cases "i = j")
  case True
  then show ?thesis by simp
next
  case False
  show ?thesis
  proof (rule ext)
    fix b :: basis
    from False have tw: "b(j := y, i := x) = b(i := x, j := y)" for x y
      by (simp add: fun_upd_twist)
    from False show "hadamard i (hadamard j \<psi>) b = hadamard j (hadamard i \<psi>) b"
      by (simp add: hadamard_def tw add_divide_distrib diff_divide_distrib algebra_simps)
  qed
qed

lemma mcx_twice:
  assumes "t \<notin> set cs"
  shows "mcx cs t (mcx cs t \<psi>) = \<psi>"
proof (rule ext)
  fix b
  from assms have "list_all (flip_line t b) cs = list_all b cs"
    by (auto simp: list_all_iff flip_line_def)
  then show "mcx cs t (mcx cs t \<psi>) b = \<psi> b"
    by (simp add: mcx_def flip_line_twice)
qed

lemma fold_commute_step:
  assumes "\<And>x y s. f x (f y s) = f y (f x s)"
  shows "f x (fold f xs s) = fold f xs (f x s)"
  by (induction xs arbitrary: s) (simp_all add: assms)

lemma fold_involutions:
  assumes c: "\<And>x y s. f x (f y s) = f y (f x s)" and i: "\<And>x s. f x (f x s) = s"
  shows "fold f xs (fold f xs s) = s"
proof (induction xs arbitrary: s)
  case Nil
  then show ?case by simp
next
  case (Cons x xs)
  have "fold f (x # xs) (fold f (x # xs) s) = fold f xs (f x (fold f xs (f x s)))"
    by simp
  also have "\<dots> = fold f xs (fold f xs (f x (f x s)))"
    by (simp add: fold_commute_step [of f, OF c])
  also have "\<dots> = s"
    by (simp add: Cons.IH i)
  finally show ?case .
qed


lemma fold_pauli_x_twice: "fold pauli_x qs (fold pauli_x qs \<psi>) = \<psi>"
  by (rule fold_involutions) (rule pauli_x_commute, rule pauli_x_twice)

lemma fold_hadamard_twice: "fold hadamard qs (fold hadamard qs \<psi>) = \<psi>"
  by (rule fold_involutions) (rule hadamard_commute, rule hadamard_twice)

lemma sandwich_twice:
  assumes "t \<notin> set cs"
  shows "hadamard t (mcx cs t (hadamard t (hadamard t (mcx cs t (hadamard t \<psi>))))) = \<psi>"
  by (simp add: hadamard_twice mcx_twice [OF assms])

lemma last_not_control: "n - 1 \<notin> set (py_range (n - 1))"
  by (simp add: py_range_def)

lemma oracle_definition:
  "inst_definition (create_oracle self) =
     map XGate (filter (\<lambda>i. self_target self ! nat (int (length (self_target self)) - 1 - i) = CHR ''0'')
                 [0..int (length (self_target self)) - 1])
     @ [HGate (self_n self - 1), MCXGate (py_range (self_n self - 1)) (self_n self - 1),
        HGate (self_n self - 1)]
     @ map XGate (filter (\<lambda>i. self_target self ! nat (int (length (self_target self)) - 1 - i) = CHR ''0'')
                 [0..int (length (self_target self)) - 1])"
  by (simp add: create_oracle_def flip_zeros_eq QuantumCircuit_def qc_h_def qc_mcx_def
      to_instruction_def)

lemma diffuser_definition:
  "inst_definition (create_diffuser self) =
     map HGate (py_range (self_n self)) @ map XGate (py_range (self_n self))
     @ [HGate (self_n self - 1), MCXGate (py_range (self_n self - 1)) (self_n self - 1),
        HGate (self_n self - 1)]
     @ map XGate (py_range (self_n self)) @ map HGate (py_range (self_n self))"
  by (simp add: create_diffuser_def qc_h_all_def qc_x_all_def fold_qc_h fold_qc_x
      QuantumCircuit_def qc_h_def qc_mcx_def to_instruction_def)

lemma run_oracle_shape:
  assumes "\<And>\<psi>. apply_gates A \<psi> = Some (fa \<psi>)" and "\<And>\<psi>. apply_gates S \<psi> = Some (fs \<psi>)"
  shows "apply_gates ((A @ S @ A) @ (A @ S @ A)) \<psi> = Some (fa (fs (fa (fa (fs (fa \<psi>))))))"
  by (simp add: apply_gates_append assms)

lemma run_diffuser_shape:
  assumes "\<And>\<psi>. apply_gates A \<psi> = Some (fa \<psi>)" and "\<And>\<psi>. apply_gates B \<psi> = Some (fb \<psi>)"
    and "\<And>\<psi>. apply_gates S \<psi> = Some (fs \<psi>)"
  shows "apply_gates ((A @ B @ S @ B @ A) @ (A @ B @ S @ B @ A)) \<psi>
           = Some (fa (fb (fs (fb (fa (fa (fb (fs (fb (fa \<psi>))))))))))"
  by (simp add: apply_gates_append assms)

text \<open>
  C8. The oracle is self-inverse and the diffuser is self-inverse: running the gates of
  the oracle twice in a row gives back every state unchanged (every amplitude, so the
  amplitudes of the other basis states and the sign of the target's), and so does running
  the gates of the diffuser twice.
\<close>

theorem oracle_diffuser_self_inverse:
  "apply_gates (inst_definition (create_oracle self) @ inst_definition (create_oracle self)) \<psi>
     = Some \<psi>
   \<and> apply_gates (inst_definition (create_diffuser self) @ inst_definition (create_diffuser self)) \<psi>
     = Some \<psi>"
proof
  show "apply_gates (inst_definition (create_oracle self) @ inst_definition (create_oracle self)) \<psi>
     = Some \<psi>"
    unfolding oracle_definition
    by (subst run_oracle_shape [OF apply_x_gates apply_sandwich])
      (simp add: fold_pauli_x_twice sandwich_twice [OF last_not_control])
  show "apply_gates (inst_definition (create_diffuser self) @ inst_definition (create_diffuser self)) \<psi>
     = Some \<psi>"
    unfolding diffuser_definition
    by (subst run_diffuser_shape [OF apply_h_gates apply_x_gates apply_sandwich])
      (simp add: fold_pauli_x_twice fold_hadamard_twice sandwich_twice [OF last_not_control])
qed

subsection \<open>What the oracle marks\<close>

text \<open>
  The Hadamard, multi-controlled X, Hadamard sandwich changes the sign of the amplitude
  of the basis states whose control lines and target line are all 1, and nothing else.
  Between the two rows of X gates it changes the sign of exactly the basis state that
  spells the target, line \<open>i\<close> holding the character \<open>i\<close> places from the right
  (a character other than \<open>0\<close> counts as 1).
\<close>

lemma sandwich_phase_flip:
  assumes "t \<notin> set cs"
  shows "hadamard t (mcx cs t (hadamard t \<psi>)) = (\<lambda>b. if list_all b cs \<and> b t then - \<psi> b else \<psi> b)"
proof (rule ext)
  fix b :: basis
  from assms have c: "list_all (b(t := x)) cs = list_all b cs" for x
    by (auto simp: list_all_iff)
  show "hadamard t (mcx cs t (hadamard t \<psi>)) b = (if list_all b cs \<and> b t then - \<psi> b else \<psi> b)"
  proof (cases "b t")
    case True
    then have "b(t := True) = b" by (simp add: fun_upd_idem)
    with True show ?thesis
      using hadamard_algebra [of "\<psi> (b(t := False))" "\<psi> b"]
        hadamard_algebra [of "\<psi> (b(t := False))" "- \<psi> b"]
      by (simp add: hadamard_def mcx_def c flip_line_def)
  next
    case False
    then have "b(t := False) = b" by (simp add: fun_upd_idem)
    with False show ?thesis
      using hadamard_algebra [of "\<psi> b" "\<psi> (b(t := True))"]
      by (simp add: hadamard_def mcx_def c flip_line_def add.commute)
  qed
qed


lemma fold_pauli_x_eq: "fold pauli_x zs \<psi> = (\<lambda>b. \<psi> (fold flip_line zs b))"
proof (induction zs arbitrary: \<psi>)
  case Nil
  then show ?case by simp
next
  case (Cons z zs)
  have c: "flip_line z (fold flip_line zs b) = fold flip_line zs (flip_line z b)" for b
    by (rule fold_commute_step) (rule flip_line_commute)
  have "fold pauli_x (z # zs) \<psi> = fold pauli_x zs (pauli_x z \<psi>)"
    by simp
  also have "\<dots> = (\<lambda>b. pauli_x z \<psi> (fold flip_line zs b))"
    by (rule Cons.IH)
  also have "\<dots> = (\<lambda>b. \<psi> (fold flip_line (z # zs) b))"
    by (simp add: pauli_x_def c)
  finally show ?case .
qed

lemma fold_flip_line:
  "distinct zs \<Longrightarrow> fold flip_line zs b = (\<lambda>i. if i \<in> set zs then \<not> b i else b i)"
proof (induction zs arbitrary: b)
  case Nil
  then show ?case by simp
next
  case (Cons z zs)
  then show ?case
    by (auto simp: flip_line_def fun_eq_iff)
qed

lemma oracle_marks_target:
  assumes "GroverAlgorithm n t = Inr self" and "1 \<le> n"
  shows "apply_gates (inst_definition (create_oracle self)) \<psi> =
           Some (\<lambda>b. if list_all (\<lambda>i. b i = (t ! nat (n - 1 - i) \<noteq> CHR ''0'')) [0..n - 1]
                     then - \<psi> b else \<psi> b)"
proof -
  from assms(1) have s: "self_n self = n" "self_target self = t" "int (length t) = n"
    using constructed by blast+
  define zs where "zs = filter (\<lambda>i. t ! nat (n - 1 - i) = CHR ''0'') [0..n - 1]"
  have d: "distinct zs"
    by (simp add: zs_def)
  have m: "i \<in> set zs \<longleftrightarrow> 0 \<le> i \<and> i \<le> n - 1 \<and> t ! nat (n - 1 - i) = CHR ''0''" for i
    by (auto simp: zs_def)
  have o: "inst_definition (create_oracle self) =
             map XGate zs @ [HGate (n - 1), MCXGate (py_range (n - 1)) (n - 1), HGate (n - 1)]
             @ map XGate zs"
    by (simp add: oracle_definition s zs_def)
  have last: "[0..n - 1] = py_range (n - 1) @ [n - 1]"
    using assms(2) upto_rec2 [of 0 "n - 1"] by (simp add: py_range_def)
  have run: "apply_gates (inst_definition (create_oracle self)) \<psi>
      = Some (fold pauli_x zs (hadamard (n - 1) (mcx (py_range (n - 1)) (n - 1)
          (hadamard (n - 1) (fold pauli_x zs \<psi>)))))"
    unfolding o by (simp add: apply_gates_append apply_x_gates apply_gate_def)
  have "fold pauli_x zs (hadamard (n - 1) (mcx (py_range (n - 1)) (n - 1)
          (hadamard (n - 1) (fold pauli_x zs \<psi>))))
        = (\<lambda>b. if list_all (\<lambda>i. b i = (t ! nat (n - 1 - i) \<noteq> CHR ''0'')) [0..n - 1]
                     then - \<psi> b else \<psi> b)"
  proof (rule ext)
    fix b :: basis
    have tt: "fold flip_line zs (fold flip_line zs b) = b"
      by (rule fold_involutions) (rule flip_line_commute, rule flip_line_twice)
    have "(list_all (fold flip_line zs b) (py_range (n - 1)) \<and> fold flip_line zs b (n - 1))
            = list_all (fold flip_line zs b) [0..n - 1]"
      by (simp add: last)
    also have "\<dots> = list_all (\<lambda>i. b i = (t ! nat (n - 1 - i) \<noteq> CHR ''0'')) [0..n - 1]"
      by (auto simp: fold_flip_line [OF d] list_all_iff m)
    finally show "fold pauli_x zs (hadamard (n - 1) (mcx (py_range (n - 1)) (n - 1)
          (hadamard (n - 1) (fold pauli_x zs \<psi>)))) b
        = (if list_all (\<lambda>i. b i = (t ! nat (n - 1 - i) \<noteq> CHR ''0'')) [0..n - 1]
                     then - \<psi> b else \<psi> b)"
      by (simp add: sandwich_phase_flip [OF last_not_control] fold_pauli_x_eq tt)
  qed
  with run show ?thesis by simp
qed

section \<open>Rounding to a float\<close>

lemma round_even_of_int [simp]: "round_even (of_int m) = m"
  by (simp add: round_even_def)

lemma round_even_0 [simp]: "round_even 0 = 0"
  using round_even_of_int [of 0] by simp

lemma round_even_cases: "round_even x = \<lfloor>x\<rfloor> \<or> round_even x = \<lfloor>x\<rfloor> + 1"
  by (simp add: round_even_def Let_def)

lemma round_even_mono:
  assumes "x \<le> y"
  shows "round_even x \<le> round_even y"
proof (cases "\<lfloor>x\<rfloor> = \<lfloor>y\<rfloor>")
  case True
  with assms show ?thesis
    by (auto simp: round_even_def Let_def)
next
  case False
  with assms have "\<lfloor>x\<rfloor> < \<lfloor>y\<rfloor>"
    using floor_mono [of x y] by linarith
  moreover have "round_even x \<le> \<lfloor>x\<rfloor> + 1" "\<lfloor>y\<rfloor> \<le> round_even y"
    using round_even_cases [of x] round_even_cases [of y] by auto
  ultimately show ?thesis by linarith
qed

lemma round_even_minus: "round_even (- x) = - round_even x"
proof (cases "x \<in> \<int>")
  case True
  then obtain m where "x = of_int m" by (auto elim: Ints_cases)
  then have "- x = of_int (- m)" by simp
  then show ?thesis
    using \<open>x = of_int m\<close> by (simp only: round_even_of_int)
next
  case False
  then have "of_int \<lfloor>x\<rfloor> \<noteq> x"
    by (metis Ints_of_int)
  then have f: "\<lfloor>- x\<rfloor> = - \<lfloor>x\<rfloor> - 1"
    by (simp add: floor_minus ceiling_altdef)
  have "x - of_int \<lfloor>x\<rfloor> < 1" "0 \<le> x - of_int \<lfloor>x\<rfloor>"
    by linarith+
  then show ?thesis
    unfolding round_even_def Let_def f
    by (auto simp: algebra_simps)
qed

lemma round_even_error: "\<bar>of_int (round_even x) - x\<bar> \<le> 1 / 2"
proof -
  have "x - of_int \<lfloor>x\<rfloor> < 1" "0 \<le> x - of_int \<lfloor>x\<rfloor>"
    by linarith+
  then show ?thesis
    unfolding round_even_def Let_def by (auto simp: abs_le_iff)
qed

lemma ulp_exp_minus [simp]: "ulp_exp (- x) = ulp_exp x"
  by (simp add: ulp_exp_def)

lemma rnd64_minus: "rnd64 (- x) = - rnd64 x"
  by (simp add: rnd64_def round_even_minus)

lemma rnd64_0 [simp]: "rnd64 0 = 0"
  by (simp add: rnd64_def)

lemma ulp_exp_eq:
  assumes "2 powr of_int e \<le> \<bar>x\<bar>" and "\<bar>x\<bar> < 2 powr of_int (e + 1)"
  shows "ulp_exp x = max e (- 1022) - 52"
proof -
  from assms(1) have "0 < \<bar>x\<bar>"
    by (smt (verit) powr_gt_zero)
  then have "\<lfloor>log 2 \<bar>x\<bar>\<rfloor> = e"
    using assms by (simp add: floor_log_eq_powr_iff)
  then show ?thesis
    by (simp add: ulp_exp_def)
qed

lemma binade:
  assumes "x \<noteq> 0"
  shows "2 powr of_int \<lfloor>log 2 \<bar>x\<bar>\<rfloor> \<le> \<bar>x\<bar>" and "\<bar>x\<bar> < 2 powr of_int (\<lfloor>log 2 \<bar>x\<bar>\<rfloor> + 1)"
  using assms floor_log_eq_powr_iff [of "\<bar>x\<bar>" 2 "\<lfloor>log 2 \<bar>x\<bar>\<rfloor>"] by simp_all

lemma ulp_exp_ge: "- 1074 \<le> ulp_exp x"
  by (simp add: ulp_exp_def)

text \<open>below the top of its binade\<close>
lemma below_top:
  assumes "x \<noteq> 0"
  shows "\<bar>x\<bar> < 2 powr of_int (ulp_exp x + 53)"
proof -
  have "\<lfloor>log 2 \<bar>x\<bar>\<rfloor> + 1 \<le> ulp_exp x + 53"
    by (simp add: ulp_exp_def)
  then have "(2::real) powr of_int (\<lfloor>log 2 \<bar>x\<bar>\<rfloor> + 1) \<le> 2 powr of_int (ulp_exp x + 53)"
    by simp
  with binade(2) [OF assms] show ?thesis by linarith
qed


lemma pow2_add: "(2::real) powr of_int (a + b) = 2 powr of_int a * 2 powr of_int b"
  by (simp add: powr_add)

lemma pow2_nat: "0 \<le> d \<Longrightarrow> (2::real) powr of_int d = of_int (2 ^ nat d)"
  by (simp add: powr_int)

lemma pow2_mono: "a \<le> b \<Longrightarrow> (2::real) powr of_int a \<le> 2 powr of_int b"
  by simp

lemma pow2_53: "(2::real) powr of_int (a + 53) = 2 powr of_int a * 2 ^ 53"
  by (simp add: powr_add)

lemma pow2_52: "(2::real) powr of_int (a + 52) = 2 powr of_int a * 2 ^ 52"
  by (simp add: powr_add)

lemma rnd64_exact:
  assumes "\<bar>m\<bar> < 2 ^ 53" and "- 1074 \<le> j"
  shows "rnd64 (of_int m * 2 powr of_int j) = of_int m * 2 powr of_int j"
proof (cases "m = 0")
  case True
  then show ?thesis by simp
next
  case False
  define x where "x = real_of_int m * 2 powr of_int j"
  have x0: "x \<noteq> 0"
    using False by (simp add: x_def)
  have "\<bar>real_of_int m\<bar> < 2 ^ 53"
    using assms(1) by (metis of_int_abs of_int_less_numeral_power_cancel_iff)
  then have "\<bar>x\<bar> < 2 powr of_int j * 2 ^ 53"
    by (simp add: x_def abs_mult)
  then have "\<bar>x\<bar> < 2 powr of_int (j + 53)"
    by (simp only: pow2_53)
  then have "2 powr of_int \<lfloor>log 2 \<bar>x\<bar>\<rfloor> < (2::real) powr of_int (j + 53)"
    using binade(1) [OF x0] by linarith
  then have "\<lfloor>log 2 \<bar>x\<bar>\<rfloor> < j + 53"
    by simp
  with assms(2) have u: "ulp_exp x \<le> j"
    by (simp add: ulp_exp_def)
  define d where "d = j - ulp_exp x"
  have d0: "0 \<le> d" using u by (simp add: d_def)
  have "j = d + ulp_exp x"
    by (simp add: d_def)
  then have "2 powr of_int j = (2::real) powr of_int d * 2 powr of_int (ulp_exp x)"
    by (simp only: pow2_add)
  then have xe: "x = of_int (m * 2 ^ nat d) * 2 powr of_int (ulp_exp x)"
    by (simp add: x_def pow2_nat [OF d0])
  have "x / 2 powr of_int (ulp_exp x) = of_int (m * 2 ^ nat d)"
    by (subst xe) simp
  then have "rnd64 x = of_int (m * 2 ^ nat d) * 2 powr of_int (ulp_exp x)"
    by (simp only: rnd64_def round_even_of_int)
  then have "rnd64 x = x"
    by (rule trans [OF _ xe [symmetric]])
  then show ?thesis
    unfolding x_def .
qed

lemma rnd64_nonneg: "0 \<le> x \<Longrightarrow> 0 \<le> rnd64 x"
proof -
  assume "0 \<le> x"
  then have "round_even 0 \<le> round_even (x / 2 powr of_int (ulp_exp x))"
    by (intro round_even_mono) simp
  then show ?thesis
    by (simp add: rnd64_def)
qed

lemma rnd64_le_top:
  assumes "0 < x"
  shows "rnd64 x \<le> 2 powr of_int (ulp_exp x + 53)"
proof -
  have "x < 2 powr of_int (ulp_exp x + 53)"
    using below_top [of x] assms by simp
  then have "x / 2 powr of_int (ulp_exp x) \<le> of_int (2 ^ 53)"
    by (simp only: pow2_53) (simp add: field_simps)
  then have "round_even (x / 2 powr of_int (ulp_exp x)) \<le> 2 ^ 53"
    using round_even_mono round_even_of_int by metis
  then have "real_of_int (round_even (x / 2 powr of_int (ulp_exp x))) \<le> 2 ^ 53"
    by (metis of_int_le_numeral_power_cancel_iff)
  then have "real_of_int (round_even (x / 2 powr of_int (ulp_exp x))) * 2 powr of_int (ulp_exp x)
      \<le> 2 ^ 53 * 2 powr of_int (ulp_exp x)"
    by (intro mult_right_mono) simp_all
  then show ?thesis
    by (simp only: rnd64_def pow2_53) (simp add: mult.commute)
qed

lemma rnd64_ge_bottom:
  assumes "0 < x" and "- 1022 \<le> \<lfloor>log 2 x\<rfloor>"
  shows "2 powr of_int (ulp_exp x + 52) \<le> rnd64 x"
proof -
  from assms have e: "ulp_exp x + 52 = \<lfloor>log 2 x\<rfloor>"
    by (simp add: ulp_exp_def)
  have "2 powr of_int (ulp_exp x + 52) \<le> x"
    using binade(1) [of x] assms(1) unfolding e by simp
  then have "of_int (2 ^ 52) \<le> x / 2 powr of_int (ulp_exp x)"
    by (simp only: pow2_52) (simp add: field_simps)
  then have "2 ^ 52 \<le> round_even (x / 2 powr of_int (ulp_exp x))"
    using round_even_mono round_even_of_int by metis
  then have "2 ^ 52 \<le> real_of_int (round_even (x / 2 powr of_int (ulp_exp x)))"
    by (metis of_int_numeral_le_iff numeral_power_le_of_int_cancel_iff)
  then have "2 ^ 52 * 2 powr of_int (ulp_exp x)
      \<le> real_of_int (round_even (x / 2 powr of_int (ulp_exp x))) * 2 powr of_int (ulp_exp x)"
    by (intro mult_right_mono) simp_all
  then show ?thesis
    by (simp only: rnd64_def pow2_52) (simp add: mult.commute)
qed

lemma rnd64_mono_pos:
  assumes "0 < x" and "x \<le> y"
  shows "rnd64 x \<le> rnd64 y"
proof -
  from assms have y: "0 < y" by simp
  from assms have "log 2 x \<le> log 2 y" by simp
  then have fl: "\<lfloor>log 2 x\<rfloor> \<le> \<lfloor>log 2 y\<rfloor>"
    by (rule floor_mono)
  then have ab: "ulp_exp x \<le> ulp_exp y"
    using assms(1) y by (simp add: ulp_exp_def)
  show ?thesis
  proof (cases "ulp_exp x = ulp_exp y")
    case True
    have "x / 2 powr of_int (ulp_exp y) \<le> y / 2 powr of_int (ulp_exp y)"
      using assms(2) by (simp add: divide_right_mono)
    then have "round_even (x / 2 powr of_int (ulp_exp y)) \<le> round_even (y / 2 powr of_int (ulp_exp y))"
      by (rule round_even_mono)
    then show ?thesis
      by (simp add: rnd64_def True)
  next
    case False
    with ab have lt: "ulp_exp x + 53 \<le> ulp_exp y + 52" by simp
    define F where "F = \<lfloor>log 2 y\<rfloor>"
    have "ulp_exp y = max F (- 1022) - 52"
      using y by (simp add: ulp_exp_def F_def)
    with lt have "- 1022 \<le> F"
      using ulp_exp_ge [of x] by (simp add: max_def split: if_splits)
    then have "- 1022 \<le> \<lfloor>log 2 y\<rfloor>"
      by (simp only: F_def)
    then have "2 powr of_int (ulp_exp y + 52) \<le> rnd64 y"
      using y by (rule rnd64_ge_bottom [rotated])
    moreover have "rnd64 x \<le> 2 powr of_int (ulp_exp x + 53)"
      using assms(1) by (rule rnd64_le_top)
    moreover have "(2::real) powr of_int (ulp_exp x + 53) \<le> 2 powr of_int (ulp_exp y + 52)"
      using lt by (rule pow2_mono)
    ultimately show ?thesis by linarith
  qed
qed

lemma rnd64_mono:
  assumes "x \<le> y"
  shows "rnd64 x \<le> rnd64 y"
proof -
  consider "0 < x" | "x \<le> 0" "0 \<le> y" | "y < 0" by linarith
  then show ?thesis
  proof cases
    case 1
    then show ?thesis using assms by (rule rnd64_mono_pos)
  next
    case 2
    then have "rnd64 x \<le> 0" "0 \<le> rnd64 y"
      using rnd64_nonneg [of "- x"] rnd64_nonneg [of y] by (simp_all add: rnd64_minus)
    then show ?thesis by linarith
  next
    case 3
    then have "rnd64 (- y) \<le> rnd64 (- x)"
      using assms by (intro rnd64_mono_pos) simp_all
    then show ?thesis by (simp add: rnd64_minus)
  qed
qed

lemma mantissa_bound: "\<bar>round_even (x / 2 powr of_int (ulp_exp x))\<bar> \<le> 2 ^ 53"
proof -
  have pos: "\<bar>round_even (y / 2 powr of_int (ulp_exp y))\<bar> \<le> 2 ^ 53" if "0 < y" for y
  proof -
    have "y < 2 powr of_int (ulp_exp y + 53)"
      using below_top [of y] that by simp
    then have "y / 2 powr of_int (ulp_exp y) \<le> of_int (2 ^ 53)"
      by (simp only: pow2_53) (simp add: field_simps)
    then have "round_even (y / 2 powr of_int (ulp_exp y)) \<le> 2 ^ 53"
      using round_even_mono round_even_of_int by metis
    moreover have "round_even 0 \<le> round_even (y / 2 powr of_int (ulp_exp y))"
      using that by (intro round_even_mono) simp
    ultimately show ?thesis by simp
  qed
  consider "0 < x" | "x = 0" | "0 < - x" by linarith
  then show ?thesis
  proof cases
    case 1
    then show ?thesis by (rule pos)
  next
    case 2
    then show ?thesis by simp
  next
    case 3
    from pos [OF 3] show ?thesis
      by (simp add: round_even_minus)
  qed
qed

lemma rnd64_scale_rnd: "rnd64 (2 ^ k * rnd64 x) = 2 ^ k * rnd64 x"
proof -
  define M where "M = round_even (x / 2 powr of_int (ulp_exp x))"
  define u where "u = ulp_exp x"
  have r: "rnd64 x = of_int M * 2 powr of_int u"
    by (simp add: rnd64_def M_def u_def)
  have u: "- 1074 \<le> u"
    by (simp add: u_def ulp_exp_ge)
  have k: "(2::real) ^ k = 2 powr of_int (int k)"
    by (simp add: powr_realpow)
  have M: "\<bar>M\<bar> \<le> 2 ^ 53"
    unfolding M_def by (rule mantissa_bound)
  show ?thesis
  proof (cases "\<bar>M\<bar> < 2 ^ 53")
    case True
    have e: "2 ^ k * rnd64 x = of_int M * 2 powr of_int (u + int k)"
      unfolding r k pow2_add by simp
    show ?thesis
      unfolding e using True u by (intro rnd64_exact) simp_all
  next
    case False
    with M have "\<bar>M\<bar> = 2 ^ 53" by simp
    then consider "M = 2 ^ 53" | "M = - (2 ^ 53)" by linarith
    then show ?thesis
    proof cases
      case 1
      have e: "2 ^ k * rnd64 x = of_int 1 * 2 powr of_int (u + 53 + int k)"
        unfolding r k 1 pow2_add pow2_53 by simp
      show ?thesis
        unfolding e using u by (intro rnd64_exact) simp_all
    next
      case 2
      have e: "2 ^ k * rnd64 x = of_int (- 1) * 2 powr of_int (u + 53 + int k)"
        unfolding r k 2 pow2_add pow2_53 by simp
      show ?thesis
        unfolding e using u by (intro rnd64_exact) simp_all
    qed
  qed
qed

lemma rnd64_idem: "rnd64 (rnd64 x) = rnd64 x"
  using rnd64_scale_rnd [of 0 x] by simp

lemma rnd64_dyadic:
  assumes "\<bar>m\<bar> < 2 ^ 53" and "k \<le> 1074"
  shows "rnd64 (real_of_int m / 2 ^ k) = real_of_int m / 2 ^ k"
proof -
  have "(2::real) powr of_int (- int k) = 1 / 2 ^ k"
    by (simp add: powr_minus powr_realpow divide_inverse)
  then have e: "real_of_int m / 2 ^ k = real_of_int m * 2 powr of_int (- int k)"
    by simp
  show ?thesis
    unfolding e using assms by (intro rnd64_exact) simp_all
qed

lemma rnd64_of_int:
  assumes "\<bar>m\<bar> < 2 ^ 53"
  shows "rnd64 (of_int m) = of_int m"
  using rnd64_dyadic [OF assms, of 0] by simp

lemma rnd64_pow2: "rnd64 (2 ^ k) = 2 ^ k"
  using rnd64_scale_rnd [of k 1] rnd64_of_int [of 1] by simp

lemma rnd64_half:
  assumes "2 \<le> \<bar>x\<bar>"
  shows "rnd64 (x / 2) = rnd64 x / 2"
proof -
  have x0: "x \<noteq> 0" using assms by auto
  define e where "e = \<lfloor>log 2 \<bar>x\<bar>\<rfloor>"
  have b: "2 powr of_int e \<le> \<bar>x\<bar>" "\<bar>x\<bar> < 2 powr of_int (e + 1)"
    using binade [OF x0] by (simp_all add: e_def)
  have "1 < real_of_int (e + 1)"
    using assms b(2) powr_less_cancel_iff [of 2 1 "real_of_int (e + 1)"] by simp
  then have e1: "1 \<le> e"
    by linarith
  have "2 powr of_int (e - 1) \<le> \<bar>x / 2\<bar>" "\<bar>x / 2\<bar> < 2 powr of_int (e - 1 + 1)"
    using b by (simp_all add: powr_diff powr_add)
  then have "ulp_exp (x / 2) = max (e - 1) (- 1022) - 52"
    by (rule ulp_exp_eq)
  moreover have "ulp_exp x = max e (- 1022) - 52"
    using b by (rule ulp_exp_eq)
  ultimately have u: "ulp_exp x = ulp_exp (x / 2) + 1"
    using e1 by simp
  have "2 powr of_int (ulp_exp x) = 2 * (2::real) powr of_int (ulp_exp (x / 2))"
    unfolding u pow2_add by simp
  then show ?thesis
    by (simp add: rnd64_def)
qed

lemma round_even_near:
  assumes "of_int m - 1 / 2 < y" and "y < of_int m + 1 / 2"
  shows "round_even y = m"
proof -
  have "round_even (of_int m - 1 / 2) \<le> round_even y" "round_even y \<le> round_even (of_int m + 1 / 2)"
    using assms by (intro round_even_mono; simp)+
  have e: "\<bar>of_int (round_even y) - y\<bar> \<le> 1 / 2"
    by (rule round_even_error)
  have "\<bar>real_of_int (round_even y) - of_int m\<bar> < 1"
    using assms e by linarith
  then have "\<bar>round_even y - m\<bar> < 1"
    by (metis of_int_abs of_int_diff of_int_less_1_iff)
  then show ?thesis by simp
qed

section \<open>The iteration count\<close>

lemma to_float_finite: "\<bar>rnd64 x\<bar> < 2 ^ 1024 \<Longrightarrow> to_float x = Finite (rnd64 x)"
  by (auto simp: to_float_def Let_def)

lemma rnd64_le: "x \<le> 2 ^ k \<Longrightarrow> rnd64 x \<le> 2 ^ k"
  using rnd64_mono [of x "2 ^ k"] by (simp add: rnd64_pow2)

lemma to_float_0 [simp]: "to_float 0 = Finite 0"
  by (simp add: to_float_def)

text \<open>a zero quotient ends in the division by zero\<close>
lemma from_zero_ratio:
  "(case math_sqrt (Finite 0) of Inl e \<Rightarrow> Inl e | Inr rt \<Rightarrow>
      case math_asin rt of Inl e \<Rightarrow> Inl e | Inr theta \<Rightarrow>
      case float_div math_pi (float_mul 4 theta) of Inl e \<Rightarrow> Inl e | Inr q \<Rightarrow>
      py_round (float_sub q (1 / 2))) = Inl ZeroDivisionError"
  by (simp add: math_sqrt_def math_asin_def float_mul_def float_div_def)

lemma inv_pow2: "(1::real) / 2 ^ k = 2 powr of_int (- int k)"
  by (simp add: powr_minus powr_realpow divide_inverse)





lemma rnd64_ge_pow: "2 ^ k \<le> x \<Longrightarrow> 2 ^ k \<le> rnd64 x"
  using rnd64_mono [of "2 ^ k" x] by (simp add: rnd64_pow2)

lemma rnd64_1 [simp]: "rnd64 1 = 1"
  using rnd64_pow2 [of 0] by simp

lemma rnd64_half_1 [simp]: "rnd64 (1 / 2) = 1 / 2"
  using rnd64_dyadic [of 1 1] by simp

lemma math_pi_bounds: "2 \<le> math_pi" "math_pi \<le> 4"
proof -
  have "(2::real) ^ 1 \<le> rnd64 pi"
    by (rule rnd64_ge_pow) (simp add: pi_ge_two)
  then show "2 \<le> math_pi" by (simp add: math_pi_def)
  have "rnd64 pi \<le> 2 ^ 2"
    by (rule rnd64_le) (use pi_less_4 in simp)
  then show "math_pi \<le> 4" by (simp add: math_pi_def)
qed

lemma rnd64_half_pi: "rnd64 (pi / 2) = math_pi / 2"
  unfolding math_pi_def by (rule rnd64_half) (simp add: pi_ge_two)

lemma rnd64_two_pi: "rnd64 (2 * math_pi) = 2 * math_pi"
  unfolding math_pi_def using rnd64_scale_rnd [of 1 pi] by simp










lemma dy: "\<bar>m\<bar> < 2 ^ 53 \<Longrightarrow> k \<le> 1074 \<Longrightarrow> x = real_of_int m / 2 ^ k \<Longrightarrow> rnd64 x = x"
  using rnd64_dyadic by simp



lemma exact_values:
  "rnd64 (1 / 2) = 1 / 2"
  "rnd64 (9 / 16) = 9 / 16"
  "rnd64 (2) = 2"
  "rnd64 (9 / 4) = 9 / 4"
  "rnd64 (5 / 4) = 5 / 4"
  "rnd64 (7 / 4) = 7 / 4"
  "rnd64 (3 / 4) = 3 / 4"
  "rnd64 (1 / 4) = 1 / 4"
  "rnd64 (33 / 128) = 33 / 128"
  "rnd64 (33 / 32) = 33 / 32"
  "rnd64 (193 / 64) = 193 / 64"
  "rnd64 (13 / 4) = 13 / 4"
  "rnd64 (161 / 64) = 161 / 64"
  "rnd64 (11 / 4) = 11 / 4"
  "rnd64 (1 / 16) = 1 / 16"
  "rnd64 1 = 1"
  by (rule dy [of 1 1] dy [of 9 4] dy [of 2 0] dy [of 9 2] dy [of 5 2] dy [of 7 2] dy [of 3 2] dy [of 1 2] dy [of 33 7] dy [of 33 5] dy [of 193 6] dy [of 13 2] dy [of 161 6] dy [of 11 2] dy [of 1 4] dy [of 1 0]; simp)+




lemma all_marked:
  assumes "0 \<le> n"
  shows "calculate_optimal_iterations n (2 ^ nat n) = Inr 0"
proof -
  have big: "(8::real) < 2 ^ 1024"
    using power_strict_increasing_iff [of "2::real" 3 1024] by simp
  have d: "py_truediv (2 ^ nat n) (PyInt (2 ^ nat n)) = Inr (Finite 1)"
    by (simp add: py_truediv_def to_float_def)
  have s1: "math_sqrt (Finite 1) = Inr (Finite 1)"
    by (simp add: math_sqrt_def)
  have s2: "math_asin (Finite 1) = Inr (math_pi / 2)"
    by (simp add: math_asin_def rnd64_half_pi)
  have "\<bar>rnd64 (2 * math_pi)\<bar> < 2 ^ 1024"
    using math_pi_bounds big by (simp add: rnd64_two_pi)
  then have s3: "float_mul 4 (math_pi / 2) = Finite (2 * math_pi)"
    using to_float_finite [of "2 * math_pi"] by (simp add: float_mul_def rnd64_two_pi)
  have "to_float (1 / 2) = Finite (1 / 2)"
    by (simp add: to_float_def)
  then have s4: "float_div math_pi (Finite (2 * math_pi)) = Inr (Finite (1 / 2))"
    using math_pi_bounds(1) by (simp add: float_div_def)
  have s5: "float_sub (Finite (1 / 2)) (1 / 2) = Finite 0"
    by (simp add: float_sub_def)
  show ?thesis
    using assms
    by (simp add: calculate_optimal_iterations_def py_pow2_def d s1 s2 s3 s4 s5 py_round_def)
qed

lemma tail_from_one:
  assumes "0 \<le> r" and "rnd64 (sqrt r) = 1"
  shows "(case math_sqrt (Finite r) of Inl e \<Rightarrow> Inl e | Inr rt \<Rightarrow>
          case math_asin rt of Inl e \<Rightarrow> Inl e | Inr theta \<Rightarrow>
          case float_div math_pi (float_mul 4 theta) of Inl e \<Rightarrow> Inl e | Inr q \<Rightarrow>
          py_round (float_sub q (1 / 2))) = Inr 0"
proof -
  have big: "(8::real) < 2 ^ 1024"
    using power_strict_increasing_iff [of "2::real" 3 1024] by simp
  have s1: "math_sqrt (Finite r) = Inr (Finite 1)"
    using assms by (simp add: math_sqrt_def)
  have s2: "math_asin (Finite 1) = Inr (math_pi / 2)"
    by (simp add: math_asin_def rnd64_half_pi)
  have "\<bar>rnd64 (2 * math_pi)\<bar> < 2 ^ 1024"
    using math_pi_bounds big by (simp add: rnd64_two_pi)
  then have s3: "float_mul 4 (math_pi / 2) = Finite (2 * math_pi)"
    using to_float_finite [of "2 * math_pi"] by (simp add: float_mul_def rnd64_two_pi)
  have "to_float (1 / 2) = Finite (1 / 2)"
    by (simp add: to_float_def)
  then have s4: "float_div math_pi (Finite (2 * math_pi)) = Inr (Finite (1 / 2))"
    using math_pi_bounds(1) by (simp add: float_div_def)
  have s5: "float_sub (Finite (1 / 2)) (1 / 2) = Finite 0"
    by (simp add: float_sub_def)
  show ?thesis
    by (simp add: s1 s2 s3 s4 s5 py_round_def)
qed

lemma sqrt_just_above_one: "rnd64 (sqrt (1 + 1 / 2 ^ 52)) = 1"
proof -
  define s :: real where "s = sqrt (1 + 1 / 2 ^ 52)"
  have s1: "1 \<le> s"
    by (simp add: s_def)
  have "1 + 1 / 2 ^ 52 < (1 + 1 / 2 ^ 53 :: real)\<^sup>2"
    by (simp add: power2_eq_square algebra_simps)
  then have "s < sqrt ((1 + 1 / 2 ^ 53)\<^sup>2)"
    unfolding s_def by (simp only: real_sqrt_less_iff)
  then have s2: "s < 1 + 1 / 2 ^ 53"
    by simp
  have "ulp_exp s = max 0 (- 1022) - 52"
    using s1 s2 by (intro ulp_exp_eq) simp_all
  then have u: "ulp_exp s = - 52"
    by simp
  have p: "(2::real) powr of_int (- 52) = 1 / 2 ^ 52"
    using inv_pow2 [of 52] by simp
  have "round_even (s / (1 / 2 ^ 52)) = 2 ^ 52"
    using s1 s2 by (intro round_even_near) (simp_all add: field_simps)
  then have "rnd64 s = of_int (2 ^ 52) * (1 / 2 ^ 52)"
    by (simp only: rnd64_def u p)
  then show ?thesis
    unfolding s_def [symmetric] by simp
qed

lemma just_above_all_marked: "calculate_optimal_iterations 52 (2 ^ 52 + 1) = Inr 0"
proof -
  define x0 :: real where "x0 = 1 + 1 / 2 ^ 52"
  have e: "real_of_int (2 ^ 52 + 1) / real_of_int (2 ^ 52) = x0"
    by (simp add: x0_def field_simps)
  have x: "rnd64 x0 = x0"
    by (rule dy [of "2 ^ 52 + 1" 52]) (simp_all add: x0_def field_simps)
  have "x0 \<le> 2"
    by (simp add: x0_def)
  moreover have "(2::real) < 2 ^ 1024"
    using power_strict_increasing_iff [of "2::real" 1 1024] by simp
  moreover have "0 \<le> x0"
    by (simp add: x0_def)
  ultimately have "\<bar>rnd64 x0\<bar> < 2 ^ 1024"
    unfolding x by linarith
  then have t: "to_float x0 = Finite x0"
    using to_float_finite [of x0] by (simp only: x)
  have nz: "(2::int) ^ 52 \<noteq> 0"
    by simp
  have d: "py_truediv (2 ^ 52 + 1) (PyInt (2 ^ 52)) = Inr (Finite x0)"
    by (simp only: py_truediv_def pynum.case e t pyfloat.case nz if_False)
  have p: "py_pow2 52 = Inr (PyInt (2 ^ 52))"
    by (simp add: py_pow2_def del: power_numeral)
  have tail: "(case math_sqrt (Finite x0) of Inl e \<Rightarrow> Inl e | Inr rt \<Rightarrow>
          case math_asin rt of Inl e \<Rightarrow> Inl e | Inr theta \<Rightarrow>
          case float_div math_pi (float_mul 4 theta) of Inl e \<Rightarrow> Inl e | Inr q \<Rightarrow>
          py_round (float_sub q (1 / 2))) = Inr 0"
  proof (rule tail_from_one)
    show "0 \<le> x0" by (simp add: x0_def)
    show "rnd64 (sqrt x0) = 1" unfolding x0_def by (rule sqrt_just_above_one)
  qed
  show ?thesis
    unfolding calculate_optimal_iterations_def by (simp only: p d sum.case tail)
qed

lemma tail_negative:
  "r < 0 \<Longrightarrow>
   (case math_sqrt (Finite r) of Inl e \<Rightarrow> Inl e | Inr rt \<Rightarrow>
      case math_asin rt of Inl e \<Rightarrow> Inl e | Inr theta \<Rightarrow>
      case float_div math_pi (float_mul 4 theta) of Inl e \<Rightarrow> Inl e | Inr q \<Rightarrow>
      py_round (float_sub q (1 / 2))) = Inl ValueError"
  by (simp add: math_sqrt_def)

lemma tail_neg_inf:
  "(case math_sqrt NegInf of Inl e \<Rightarrow> Inl e | Inr rt \<Rightarrow>
      case math_asin rt of Inl e \<Rightarrow> Inl e | Inr theta \<Rightarrow>
      case float_div math_pi (float_mul 4 theta) of Inl e \<Rightarrow> Inl e | Inr q \<Rightarrow>
      py_round (float_sub q (1 / 2))) = Inl ValueError"
  by (simp add: math_sqrt_def)

lemma tail_pos_inf:
  "(case math_sqrt PosInf of Inl e \<Rightarrow> Inl e | Inr rt \<Rightarrow>
      case math_asin rt of Inl e \<Rightarrow> Inl e | Inr theta \<Rightarrow>
      case float_div math_pi (float_mul 4 theta) of Inl e \<Rightarrow> Inl e | Inr q \<Rightarrow>
      py_round (float_sub q (1 / 2))) = Inl ValueError"
  by (simp add: math_sqrt_def math_asin_def)

lemma tail_above_one:
  assumes "2 \<le> r"
  shows "(case math_sqrt (Finite r) of Inl e \<Rightarrow> Inl e | Inr rt \<Rightarrow>
      case math_asin rt of Inl e \<Rightarrow> Inl e | Inr theta \<Rightarrow>
      case float_div math_pi (float_mul 4 theta) of Inl e \<Rightarrow> Inl e | Inr q \<Rightarrow>
      py_round (float_sub q (1 / 2))) = Inl ValueError"
proof -
  have "(5 / 4)\<^sup>2 \<le> r"
    using assms by (simp add: power2_eq_square)
  then have "5 / 4 \<le> sqrt r"
    by (rule real_le_rsqrt)
  then have "rnd64 (5 / 4) \<le> rnd64 (sqrt r)"
    by (rule rnd64_mono)
  then have "1 < rnd64 (sqrt r)"
    by (simp add: exact_values)
  then show ?thesis
    using assms by (simp add: math_sqrt_def math_asin_def)
qed

lemma fails_nonpositive:
  assumes "0 \<le> n" and "k \<le> 0"
  shows "calculate_optimal_iterations n k \<in> {Inl ZeroDivisionError, Inl ValueError, Inl OverflowError}"
proof -
  define x0 where "x0 = real_of_int k / real_of_int (2 ^ nat n)"
  have "x0 \<le> 0"
    using assms(2) by (simp add: x0_def divide_nonpos_pos)
  then have r: "rnd64 x0 \<le> 0"
    using rnd64_mono [of x0 0] by simp
  have p: "py_pow2 n = Inr (PyInt (2 ^ nat n))"
    using assms(1) by (simp add: py_pow2_def)
  have nz: "(2::int) ^ nat n \<noteq> 0"
    by simp
  have d: "py_truediv k (PyInt (2 ^ nat n)) =
      (case to_float x0 of Finite r \<Rightarrow> Inr (Finite r) | PosInf \<Rightarrow> Inl OverflowError
       | NegInf \<Rightarrow> Inl OverflowError)"
    by (simp only: py_truediv_def pynum.case nz if_False x0_def)
  consider "rnd64 x0 \<le> - (2 ^ 1024)" | "- (2 ^ 1024) < rnd64 x0" "rnd64 x0 < 0" | "rnd64 x0 = 0"
    using r by linarith
  then show ?thesis
  proof cases
    case 1
    then have "to_float x0 = NegInf"
      using r by (auto simp: to_float_def Let_def)
    then show ?thesis
      unfolding calculate_optimal_iterations_def by (simp only: p d sum.case pyfloat.case) simp
  next
    case 2
    then have "to_float x0 = Finite (rnd64 x0)"
      by (intro to_float_finite) simp
    then show ?thesis
      unfolding calculate_optimal_iterations_def
      by (simp only: p d sum.case pyfloat.case tail_negative [OF 2(2)]) simp
  next
    case 3
    then have "to_float x0 = Finite 0"
      by (simp add: to_float_def)
    then show ?thesis
      unfolding calculate_optimal_iterations_def
      by (simp only: p d sum.case pyfloat.case from_zero_ratio) simp
  qed
qed

lemma no_solution:
  assumes "0 \<le> n"
  shows "calculate_optimal_iterations n 0 = Inl ZeroDivisionError"
proof -
  have p: "py_pow2 n = Inr (PyInt (2 ^ nat n))"
    using assms(1) by (simp add: py_pow2_def)
  have d: "py_truediv 0 (PyInt (2 ^ nat n)) = Inr (Finite 0)"
    by (simp add: py_truediv_def)
  show ?thesis
    unfolding calculate_optimal_iterations_def by (simp only: p d sum.case from_zero_ratio)
qed

lemma tail_of_rounded:
  assumes "x \<le> 0 \<or> 2 \<le> x"
  shows "(case math_sqrt (to_float x) of Inl e \<Rightarrow> Inl e | Inr rt \<Rightarrow>
      case math_asin rt of Inl e \<Rightarrow> Inl e | Inr theta \<Rightarrow>
      case float_div math_pi (float_mul 4 theta) of Inl e \<Rightarrow> Inl e | Inr q \<Rightarrow>
      py_round (float_sub q (1 / 2)))
    \<in> {Inl ZeroDivisionError, Inl ValueError, Inl OverflowError}"
proof -
  have two: "rnd64 2 = 2"
    using rnd64_pow2 [of 1] by simp
  consider "to_float x = PosInf" | "to_float x = NegInf"
    | "to_float x = Finite (rnd64 x)" "rnd64 x < 0"
    | "to_float x = Finite (rnd64 x)" "rnd64 x = 0"
    | "to_float x = Finite (rnd64 x)" "2 \<le> rnd64 x"
  proof -
    have "rnd64 x \<le> 0 \<or> 2 \<le> rnd64 x"
      using assms rnd64_mono [of x 0] rnd64_mono [of 2 x] two by auto
    moreover have "to_float x = PosInf \<or> to_float x = NegInf \<or> to_float x = Finite (rnd64 x)"
      by (simp add: to_float_def Let_def)
    ultimately show ?thesis
      using that by fastforce
  qed
  then show ?thesis
  proof cases
    case 1
    then show ?thesis by (simp only: tail_pos_inf) simp
  next
    case 2
    then show ?thesis by (simp only: tail_neg_inf) simp
  next
    case 3
    then show ?thesis by (simp only: tail_negative [OF 3(2)]) simp
  next
    case 4
    then show ?thesis by (simp only: from_zero_ratio) simp
  next
    case 5
    then show ?thesis by (simp only: tail_above_one [OF 5(2)]) simp
  qed
qed

lemma fails_negative_register:
  assumes "n < 0"
  shows "calculate_optimal_iterations n k \<in> {Inl ZeroDivisionError, Inl ValueError, Inl OverflowError}"
proof (cases "float_of_int n")
  case (Inl e)
  then have "e = OverflowError"
    by (auto simp: float_of_int_def split: pyfloat.splits)
  with Inl show ?thesis
    using assms by (simp add: calculate_optimal_iterations_def py_pow2_def)
next
  case (Inr y)
  then have "y = rnd64 (of_int n)"
    by (auto simp: float_of_int_def to_float_def Let_def split: if_splits)
  moreover have "rnd64 (real_of_int n) \<le> rnd64 (- 1)"
    using assms by (intro rnd64_mono) simp
  ultimately have y: "y \<le> - 1"
    by (simp add: rnd64_minus)
  define v where "v = rnd64 (2 powr y)"
  have h: "(2::real) powr (- 1) = 1 / 2"
    by (simp add: powr_minus_divide)
  have "2 powr y \<le> (2::real) powr (- 1)"
    using y powr_le_cancel_iff [of 2 y "- 1"] by linarith
  then have "2 powr y \<le> 1 / 2"
    by (simp only: h)
  then have v: "0 \<le> v" "v \<le> 1 / 2"
    using rnd64_nonneg [of "2 powr y"] rnd64_mono [of "2 powr y" "1 / 2"]
    by (simp_all add: v_def)
  have "(1 / 2 :: real) < 2 ^ 1024"
    using power_strict_increasing_iff [of "2::real" 0 1024] by simp
  then have "to_float (2 powr y) = Finite v"
    using v to_float_finite [of "2 powr y"] by (simp add: v_def)
  then have p: "py_pow2 n = Inr (PyFloat (Finite v))"
    using assms Inr by (simp add: py_pow2_def float_pow2_def)
  show ?thesis
  proof (cases "float_of_int k")
    case (Inl e)
    then have "e = OverflowError"
      by (auto simp: float_of_int_def split: pyfloat.splits)
    with Inl show ?thesis
      by (simp add: calculate_optimal_iterations_def p py_truediv_def)
  next
    case a: (Inr a)
    then have ak: "a = rnd64 (of_int k)"
      by (auto simp: float_of_int_def to_float_def Let_def split: if_splits)
    show ?thesis
    proof (cases "v = 0")
      case True
      then show ?thesis
        by (simp add: calculate_optimal_iterations_def p py_truediv_def a float_div_def)
    next
      case False
      with v have vp: "0 < v" by simp
      have d: "py_truediv k (PyFloat (Finite v)) = Inr (to_float (a / v))"
        using False by (simp add: py_truediv_def a float_div_def)
      have "a / v \<le> 0 \<or> 2 \<le> a / v"
      proof (cases "k \<le> 0")
        case True
        then have "rnd64 (real_of_int k) \<le> rnd64 0"
          by (intro rnd64_mono) simp
        then have "a \<le> 0" by (simp add: ak)
        then show ?thesis
          using vp by (simp add: divide_nonpos_pos)
      next
        case False
        then have "rnd64 1 \<le> rnd64 (real_of_int k)"
          by (intro rnd64_mono) simp
        then have "1 \<le> a" by (simp add: ak)
        then have "2 * v \<le> a"
          using v(2) by linarith
        then have "2 \<le> a / v"
          using vp by (simp add: field_simps)
        then show ?thesis ..
      qed
      then show ?thesis
        unfolding calculate_optimal_iterations_def
        by (simp only: p d sum.case) (rule tail_of_rounded)
    qed
  qed
qed

lemma sqrt_second_above_one: "rnd64 (sqrt (1 + 1 / 2 ^ 51)) = 1 + 1 / 2 ^ 52"
proof -
  define s :: real where "s = sqrt (1 + 1 / 2 ^ 51)"
  have "(1 + 1 / 2 ^ 53 :: real)\<^sup>2 < 1 + 1 / 2 ^ 51"
    by (simp add: power2_eq_square algebra_simps)
  then have "sqrt ((1 + 1 / 2 ^ 53)\<^sup>2) < s"
    unfolding s_def by (simp only: real_sqrt_less_iff)
  then have s1: "1 + 1 / 2 ^ 53 < s"
    by simp
  have "1 + 1 / 2 ^ 51 < (1 + 1 / 2 ^ 52 :: real)\<^sup>2"
    by (simp add: power2_eq_square algebra_simps)
  then have "s < sqrt ((1 + 1 / 2 ^ 52)\<^sup>2)"
    unfolding s_def by (simp only: real_sqrt_less_iff)
  then have s2: "s < 1 + 1 / 2 ^ 52"
    by simp
  have "ulp_exp s = max 0 (- 1022) - 52"
    using s1 s2 by (intro ulp_exp_eq) simp_all
  then have u: "ulp_exp s = - 52"
    by simp
  have p: "(2::real) powr of_int (- 52) = 1 / 2 ^ 52"
    using inv_pow2 [of 52] by simp
  have "round_even (s / (1 / 2 ^ 52)) = 2 ^ 52 + 1"
    using s1 s2 by (intro round_even_near) (simp_all add: field_simps)
  then have "rnd64 s = of_int (2 ^ 52 + 1) * (1 / 2 ^ 52)"
    by (simp only: rnd64_def u p)
  then show ?thesis
    unfolding s_def [symmetric] by (simp add: field_simps)
qed

lemma tail_just_above_one:
  assumes "1 + 1 / 2 ^ 51 \<le> r"
  shows "(case math_sqrt (Finite r) of Inl e \<Rightarrow> Inl e | Inr rt \<Rightarrow>
      case math_asin rt of Inl e \<Rightarrow> Inl e | Inr theta \<Rightarrow>
      case float_div math_pi (float_mul 4 theta) of Inl e \<Rightarrow> Inl e | Inr q \<Rightarrow>
      py_round (float_sub q (1 / 2))) = Inl ValueError"
proof -
  have "sqrt (1 + 1 / 2 ^ 51) \<le> sqrt r"
    using assms by (simp only: real_sqrt_le_iff)
  then have "rnd64 (sqrt (1 + 1 / 2 ^ 51)) \<le> rnd64 (sqrt r)"
    by (rule rnd64_mono)
  then have "1 + 1 / 2 ^ 52 \<le> rnd64 (sqrt r)"
    by (simp only: sqrt_second_above_one)
  moreover have "(1::real) < 1 + 1 / 2 ^ 52"
    by simp
  ultimately have a: "1 < rnd64 (sqrt r)"
    by linarith
  have "(0::real) \<le> 1 + 1 / 2 ^ 51"
    by simp
  with assms have "\<not> r < 0"
    by linarith
  with a show ?thesis
    by (simp add: math_sqrt_def math_asin_def)
qed

lemma fails_above:
  assumes "0 \<le> n" and "(2 ^ 51 + 1) * 2 ^ nat n \<le> 2 ^ 51 * k"
  shows "calculate_optimal_iterations n k \<in> {Inl ZeroDivisionError, Inl ValueError, Inl OverflowError}"
proof -
  define x0 where "x0 = real_of_int k / real_of_int (2 ^ nat n)"
  define b :: real where "b = 1 + 1 / 2 ^ 51"
  have "real_of_int ((2 ^ 51 + 1) * 2 ^ nat n) \<le> real_of_int (2 ^ 51 * k)"
    using assms(2) by (simp only: of_int_le_iff)
  then have k: "(2 ^ 51 + 1) * 2 ^ nat n \<le> 2 ^ 51 * real_of_int k"
    by simp
  have "b * 2 ^ nat n = ((2 ^ 51 + 1) * 2 ^ nat n) / 2 ^ 51"
    by (simp add: b_def field_simps)
  also have "\<dots> \<le> (2 ^ 51 * real_of_int k) / 2 ^ 51"
    by (rule divide_right_mono [OF k]) simp
  also have "\<dots> = real_of_int k"
    by simp
  finally have "b * 2 ^ nat n \<le> real_of_int k" .
  then have "b \<le> real_of_int k / 2 ^ nat n"
    by (simp add: pos_le_divide_eq)
  then have "b \<le> x0"
    by (simp add: x0_def)
  then have "rnd64 b \<le> rnd64 x0"
    by (rule rnd64_mono)
  moreover have "rnd64 b = b"
    by (rule dy [of "2 ^ 51 + 1" 51]) (simp_all add: b_def field_simps)
  ultimately have r: "b \<le> rnd64 x0"
    by simp
  have b0: "0 < b"
    by (simp add: b_def)
  have p: "py_pow2 n = Inr (PyInt (2 ^ nat n))"
    using assms(1) by (simp add: py_pow2_def)
  have nz: "(2::int) ^ nat n \<noteq> 0"
    by simp
  have d: "py_truediv k (PyInt (2 ^ nat n)) =
      (case to_float x0 of Finite r \<Rightarrow> Inr (Finite r) | PosInf \<Rightarrow> Inl OverflowError
       | NegInf \<Rightarrow> Inl OverflowError)"
    by (simp only: py_truediv_def pynum.case nz if_False x0_def)
  show ?thesis
  proof (cases "2 ^ 1024 \<le> rnd64 x0")
    case True
    then have "to_float x0 = PosInf"
      by (simp add: to_float_def Let_def)
    then show ?thesis
      unfolding calculate_optimal_iterations_def by (simp only: p d sum.case pyfloat.case) simp
  next
    case False
    with r b0 have "\<bar>rnd64 x0\<bar> < 2 ^ 1024"
      by linarith
    then have "to_float x0 = Finite (rnd64 x0)"
      by (rule to_float_finite)
    then show ?thesis
      unfolding calculate_optimal_iterations_def
      by (simp only: p d sum.case pyfloat.case tail_just_above_one [OF r [unfolded b_def]]) simp
  qed
qed

lemma fails_above_small:
  assumes "0 \<le> n" and "n \<le> 51" and "2 ^ nat n < k"
  shows "calculate_optimal_iterations n k \<in> {Inl ZeroDivisionError, Inl ValueError, Inl OverflowError}"
proof (rule fails_above [OF assms(1)])
  have "nat n \<le> 51"
    using assms(2) by simp
  then have a: "(2::int) ^ nat n \<le> 2 ^ 51"
    by (intro power_increasing) simp_all
  have "(2::int) ^ nat n + 1 \<le> k"
    using assms(3) by simp
  then have "2 ^ 51 * (2 ^ nat n + 1) \<le> 2 ^ 51 * k"
    by (intro mult_left_mono) simp_all
  moreover have "(2 ^ 51 + 1) * 2 ^ nat n \<le> 2 ^ 51 * (2 ^ nat n + 1 :: int)"
    using a by (simp add: algebra_simps)
  ultimately show "(2 ^ 51 + 1) * 2 ^ nat n \<le> 2 ^ 51 * k"
    by (rule order_trans [rotated])
qed




text \<open>
  C5, as the code has it. \<open>calculate_optimal_iterations\<close> checks nothing before it
  computes; where it fails, the arithmetic raises \<open>ZeroDivisionError\<close>, \<open>ValueError\<close> or
  \<open>OverflowError\<close>. It fails whenever \<open>n_solutions \<le> 0\<close>, or \<open>n_qubits < 0\<close>, or
  \<open>n_solutions > 2^n_qubits\<close> with \<open>n_qubits \<le> 51\<close>; with no solution and a register size
  that is not negative the error is \<open>ZeroDivisionError\<close>. It does not fail for every
  register size 0 or every \<open>n_solutions > 2^n_qubits\<close>: it returns 0 for size 0 with
  one solution, and for 52 qubits with \<open>2^52 + 1\<close> solutions.
\<close>

theorem iterations_unvalidated:
  "(n_solutions \<le> 0 \<or> n_qubits < 0 \<longrightarrow>
      calculate_optimal_iterations n_qubits n_solutions
        \<in> {Inl ZeroDivisionError, Inl ValueError, Inl OverflowError})
   \<and> (0 \<le> n_qubits \<and> n_qubits \<le> 51 \<and> 2 ^ nat n_qubits < n_solutions \<longrightarrow>
      calculate_optimal_iterations n_qubits n_solutions
        \<in> {Inl ZeroDivisionError, Inl ValueError, Inl OverflowError})
   \<and> (0 \<le> n_qubits \<longrightarrow> calculate_optimal_iterations n_qubits 0 = Inl ZeroDivisionError)
   \<and> calculate_optimal_iterations 0 1 = Inr 0
   \<and> calculate_optimal_iterations 52 (2 ^ 52 + 1) = Inr 0"
proof (intro conjI impI)
  assume a: "n_solutions \<le> 0 \<or> n_qubits < 0"
  show "calculate_optimal_iterations n_qubits n_solutions
          \<in> {Inl ZeroDivisionError, Inl ValueError, Inl OverflowError}"
  proof (cases "n_qubits < 0")
    case True
    then show ?thesis by (rule fails_negative_register)
  next
    case False
    with a show ?thesis by (intro fails_nonpositive) simp_all
  qed
next
  assume "0 \<le> n_qubits \<and> n_qubits \<le> 51 \<and> 2 ^ nat n_qubits < n_solutions"
  then show "calculate_optimal_iterations n_qubits n_solutions
          \<in> {Inl ZeroDivisionError, Inl ValueError, Inl OverflowError}"
    by (intro fails_above_small) simp_all
next
  assume "0 \<le> n_qubits"
  then show "calculate_optimal_iterations n_qubits 0 = Inl ZeroDivisionError"
    by (rule no_solution)
next
  show "calculate_optimal_iterations 0 1 = Inr 0"
    using all_marked [of 0] by simp
next
  show "calculate_optimal_iterations 52 (2 ^ 52 + 1) = Inr 0"
    by (rule just_above_all_marked)
qed

theorem iterations_unvalidated_witness:
  "calculate_optimal_iterations 3 (- 1) \<in> {Inl ZeroDivisionError, Inl ValueError, Inl OverflowError}
   \<and> calculate_optimal_iterations (- 2) 1 \<in> {Inl ZeroDivisionError, Inl ValueError, Inl OverflowError}
   \<and> calculate_optimal_iterations 3 9 \<in> {Inl ZeroDivisionError, Inl ValueError, Inl OverflowError}
   \<and> calculate_optimal_iterations 3 0 = Inl ZeroDivisionError"
  using iterations_unvalidated [where n_qubits = 3 and n_solutions = "- 1"]
    iterations_unvalidated [where n_qubits = 3 and n_solutions = 9]
    iterations_unvalidated [where n_qubits = "- 2" and n_solutions = 1]
    iterations_unvalidated [where n_qubits = 3 and n_solutions = 0]
  by simp

text \<open>
  C5 as stated fails: a register size of zero is accepted, and the function returns 0.
\<close>

theorem zero_register_accepted: "calculate_optimal_iterations 0 1 = Inr 0"
  using all_marked [of 0] by simp

end
